theory Spec2Isabelle
  imports Main "HOL-Library.Word" "HOL-Library.AList"
begin

unbundle bit_operations_syntax

section \<open>Frame decoder of server.js\<close>

text \<open>
  The relay server keeps, for each key of \<open>streamBuffers\<close>, an object
  \<open>{ buf, need, payloadLen }\<close>. \<open>buf\<close> holds the bytes not yet consumed,
  \<open>need\<close> is 4 while a length prefix is awaited and the payload length afterwards.
\<close>

type_synonym byte = "8 word"

record decodeState =
  buf :: "byte list"
  need :: nat
  payloadLen :: nat

text \<open>The object stored by \<open>registerStream\<close>: \<open>{ buf: Buffer.alloc(0), need: 4, payloadLen: 0 }\<close>.\<close>

definition freshState :: decodeState where
  "freshState = \<lparr>buf = [], need = 4, payloadLen = 0\<rparr>"

text \<open>The bound \<open>10 * 1024 * 1024\<close> tested in \<open>feedChunk\<close>.\<close>

definition maxFrameLen :: nat where
  "maxFrameLen = 10 * 1024 * 1024"

text \<open>
  \<open>buf.readUInt32BE(0)\<close>: the unsigned big-endian value of the first four bytes. The
  source calls it only after testing \<open>buf.length >= 4\<close>; the model takes the four
  bytes themselves, and the test is the list pattern in \<open>readLength\<close> below.
\<close>

definition readUInt32BE :: "byte \<Rightarrow> byte \<Rightarrow> byte \<Rightarrow> byte \<Rightarrow> nat" where
  "readUInt32BE b0 b1 b2 b3 =
     unat b0 * 2 ^ 24 + unat b1 * 2 ^ 16 + unat b2 * 2 ^ 8 + unat b3"

text \<open>
  How one round of the \<open>while (true)\<close> loop leaves its first \<open>if\<close>: by the
  \<open>break\<close> of an oversized length, or by falling through to the second \<open>if\<close>.
\<close>

datatype flow = Break decodeState | Fall decodeState

text \<open>
  The first \<open>if\<close> of the loop body, lines 109 to 115. The pattern
  \<open>b0 # b1 # b2 # b3 # rest\<close> is \<open>state.buf.length >= 4\<close>, and \<open>rest\<close> is
  \<open>state.buf.subarray(4)\<close>.
\<close>

definition readLength :: "decodeState \<Rightarrow> flow" where
  "readLength st =
     (if need st = 4 then
        (case buf st of
           b0 # b1 # b2 # b3 # rest \<Rightarrow>
             (let len = readUInt32BE b0 b1 b2 b3 in
              if len > maxFrameLen
              then Break (st\<lparr>buf := rest, need := 4, payloadLen := 0\<rparr>)
              else Fall (st\<lparr>buf := rest, payloadLen := len, need := len\<rparr>))
         | _ \<Rightarrow> Fall st)
      else Fall st)"

lemma readLength_Fall_length:
  "readLength st = Fall st1 \<Longrightarrow> length (buf st1) \<le> length (buf st)"
  by (auto simp: readLength_def Let_def split: if_splits list.splits)

text \<open>
  The \<open>while (true)\<close> loop of \<open>feedChunk\<close>, lines 108 to 125, run on the state
  whose buffer already holds the new chunk. It returns the frames handed to
  \<open>broadcastFrame\<close>, in order, and the state the loop leaves behind. Every
  \<open>continue\<close> has consumed \<open>need > 0\<close> bytes, so the loop ends.
\<close>

function drain :: "decodeState \<Rightarrow> byte list list \<times> decodeState" where
  "drain st =
     (case readLength st of
        Break st' \<Rightarrow> ([], st')
      | Fall st1 \<Rightarrow>
          if 0 < need st1 \<and> need st1 \<le> length (buf st1) then
            (let frame = take (need st1) (buf st1);
                 (frames, st') = drain (st1\<lparr>buf := drop (need st1) (buf st1),
                                          need := 4, payloadLen := 0\<rparr>)
             in (frame # frames, st'))
          else ([], st1))"
  by pat_completeness auto
termination
proof (relation "measure (\<lambda>st. length (buf st))")
  show "wf (measure (\<lambda>st. length (buf st)))" by simp
next
  fix st st1 x
  assume "readLength st = Fall st1" and "0 < need st1 \<and> need st1 \<le> length (buf st1)"
    and "x = take (need st1) (buf st1)"
  then show "(st1\<lparr>buf := drop (need st1) (buf st1), need := 4, payloadLen := 0\<rparr>, st)
      \<in> measure (\<lambda>st. length (buf st))"
    using readLength_Fall_length [of st st1] by auto
qed

declare drain.simps [simp del]

text \<open>
  The decoder part of \<open>feedChunk\<close>, lines 107 to 125:
  \<open>state.buf = Buffer.concat([state.buf, chunk])\<close>, then the loop.
\<close>

definition feedState :: "decodeState \<Rightarrow> byte list \<Rightarrow> byte list list \<times> decodeState" where
  "feedState st chunk = drain (st\<lparr>buf := buf st @ chunk\<rparr>)"

text \<open>Feeding several chunks one after the other, collecting the emitted frames.\<close>

fun feedChunks :: "decodeState \<Rightarrow> byte list list \<Rightarrow> byte list list \<times> decodeState" where
  "feedChunks st [] = ([], st)"
| "feedChunks st (c # cs) =
     (let (fs, st1) = feedState st c; (gs, st2) = feedChunks st1 cs in (fs @ gs, st2))"


section \<open>The producer's encoding, StreamClient.java\<close>

text \<open>
  \<open>buf.putInt(frame.length)\<close> of \<open>java.nio.ByteBuffer\<close>: the four bytes of a 32-bit
  integer, most significant byte first.
\<close>

definition putInt :: "32 word \<Rightarrow> byte list" where
  "putInt w = [ucast (drop_bit 24 w), ucast (drop_bit 16 w), ucast (drop_bit 8 w), ucast w]"

text \<open>
  The body built by \<open>sendOne\<close>: \<open>putInt(frame.length)\<close> followed by
  \<open>put(frame)\<close>.
\<close>

definition encodeFrame :: "byte list \<Rightarrow> byte list" where
  "encodeFrame frame = putInt (of_nat (length frame)) @ frame"

text \<open>
  The request body that \<open>server.js\<close> documents in its comment on line 49:
  \<open>repeated [4-byte big-endian length][length bytes JPEG]\<close>.
\<close>

definition encodeFrames :: "byte list list \<Rightarrow> byte list" where
  "encodeFrames frames = concat (map encodeFrame frames)"

text \<open>
  The frames for which the amended chunk-invariance statement is proved: payloads of at
  most 10 MiB whose length is not 4.
\<close>

definition plainFrame :: "byte list \<Rightarrow> bool" where
  "plainFrame f \<longleftrightarrow> length f \<le> maxFrameLen \<and> length f \<noteq> 4"

text \<open>
  A device for the proof of chunk invariance, not part of the program: the frames emitted
  and the state reached once the first \<open>k\<close> bytes of \<open>encodeFrames fs\<close> have been fed
  to a fresh decoder, written by recursion on the frames. Before the fourth byte of a
  frame's encoding the decoder still awaits the prefix; after the prefix of an empty frame
  it has \<open>need = 0\<close> and only buffers; inside a payload it waits for \<open>length f\<close> bytes;
  after the payload it has emitted the frame and goes on with the next one.
\<close>

fun stateAt :: "byte list list \<Rightarrow> nat \<Rightarrow> byte list list \<times> decodeState" where
  "stateAt [] k = ([], freshState)"
| "stateAt (f # fs) k =
     (if k < 4 then ([], \<lparr>buf = take k (encodeFrame f), need = 4, payloadLen = 0\<rparr>)
      else if f = [] then ([], \<lparr>buf = take (k - 4) (encodeFrames fs), need = 0, payloadLen = 0\<rparr>)
      else if k < 4 + length f
        then ([], \<lparr>buf = take (k - 4) f, need = length f, payloadLen = length f\<rparr>)
      else (f # fst (stateAt fs (k - 4 - length f)), snd (stateAt fs (k - 4 - length f))))"

section \<open>Relay state of server.js\<close>

text \<open>The two values of \<open>streamType\<close>: the strings \<open>'screen'\<close> and \<open>'webcam'\<close>.\<close>

datatype kind = Screen | Webcam

fun kindName :: "kind \<Rightarrow> string" where
  "kindName Screen = ''screen''"
| "kindName Webcam = ''webcam''"

text \<open>\<open>bufferKey\<close>, line 89: the template string \<open>`${clientId}:${streamType}`\<close>.\<close>

definition bufferKey :: "string \<Rightarrow> kind \<Rightarrow> string" where
  "bufferKey clientId streamType = clientId @ '':'' @ kindName streamType"

text \<open>A value of \<open>activeStreams\<close>: the object \<open>{ screen, webcam }\<close>.\<close>

record presence =
  screen :: bool
  webcam :: bool

text \<open>The assignment \<open>clientStreams[streamType] = b\<close>.\<close>

fun setKind :: "kind \<Rightarrow> bool \<Rightarrow> presence \<Rightarrow> presence" where
  "setKind Screen b p = p\<lparr>screen := b\<rparr>"
| "setKind Webcam b p = p\<lparr>webcam := b\<rparr>"

text \<open>
  The two messages sent to viewers. A frame message carries the payload; on the wire
  \<open>data\<close> is its base64 text. A streams message carries the list of
  \<open>{ clientId, hasScreen, hasWebcam }\<close>.
\<close>

datatype message =
  FrameMsg string kind "byte list"
| StreamsMsg "(string \<times> bool \<times> bool) list"

text \<open>
  A viewer's WebSocket. \<open>vid\<close> stands for the identity of the object, \<open>sendThrows\<close>
  says whether \<open>send\<close> raises when it is called, and \<open>inbox\<close> lists the messages that
  \<open>send\<close> has accepted.
\<close>

datatype wsState = CONNECTING | OPEN | CLOSING | CLOSED

record viewer =
  vid :: nat
  readyState :: wsState
  sendThrows :: bool
  inbox :: "message list"

text \<open>The lines that the functions modelled here write with \<open>console.log\<close> and \<open>console.error\<close>.\<close>

datatype logline =
  LogPost kind "string option"
| LogMissingClientId kind
| LogRequestError kind string
| LogConnected string kind
| LogDisconnected string kind
| LogViewerConnected nat
| LogViewerDisconnected nat
| LogFrameSendError
| LogUpdateSendError

text \<open>
  The module-level state: the Map \<open>activeStreams\<close> in insertion order, the Map
  \<open>streamBuffers\<close>, the Set \<open>viewingClients\<close> in insertion order, and the console.
\<close>

record server =
  activeStreams :: "(string \<times> presence) list"
  streamBuffers :: "string \<rightharpoonup> decodeState"
  viewingClients :: "viewer list"
  console :: "logline list"

text \<open>
  The body of the two \<open>viewingClients.forEach\<close> loops: a viewer that is not open is
  skipped, a \<open>send\<close> that raises is caught and logged, and the viewer stays in the set.
\<close>

definition deliver :: "message \<Rightarrow> viewer \<Rightarrow> viewer" where
  "deliver m v =
     (if readyState v = OPEN
      then (if sendThrows v then v else v\<lparr>inbox := inbox v @ [m]\<rparr>)
      else v)"

definition sendErrors :: "logline \<Rightarrow> viewer list \<Rightarrow> logline list" where
  "sendErrors l vs = map (\<lambda>v. l) (filter (\<lambda>v. readyState v = OPEN \<and> sendThrows v) vs)"

definition broadcast :: "logline \<Rightarrow> message \<Rightarrow> server \<Rightarrow> server" where
  "broadcast l m s =
     s\<lparr>viewingClients := map (deliver m) (viewingClients s),
       console := console s @ sendErrors l (viewingClients s)\<rparr>"

text \<open>\<open>broadcastFrame\<close>, lines 167 to 185.\<close>

definition broadcastFrame :: "string \<Rightarrow> kind \<Rightarrow> byte list \<Rightarrow> server \<Rightarrow> server" where
  "broadcastFrame clientId streamType frameData s =
     broadcast LogFrameSendError (FrameMsg clientId streamType frameData) s"

text \<open>The \<open>streamList\<close> built in \<open>broadcastStreamUpdate\<close> and \<open>sendStreamList\<close>.\<close>

definition streamList :: "server \<Rightarrow> (string \<times> bool \<times> bool) list" where
  "streamList s = map (\<lambda>(clientId, streams). (clientId, screen streams, webcam streams))
                      (activeStreams s)"

text \<open>\<open>broadcastStreamUpdate\<close>, lines 187 to 208.\<close>

definition broadcastStreamUpdate :: "server \<Rightarrow> server" where
  "broadcastStreamUpdate s = broadcast LogUpdateSendError (StreamsMsg (streamList s)) s"

text \<open>
  \<open>registerStream\<close>, lines 93 to 101. \<open>AList.update\<close> on a key that is absent appends
  the entry, as \<open>Map.set\<close> does; on a key that is present it replaces the value in place.
\<close>

definition registerStream :: "string \<Rightarrow> kind \<Rightarrow> server \<Rightarrow> server" where
  "registerStream clientId streamType s =
     (let as1 = (if map_of (activeStreams s) clientId = None
                 then AList.update clientId \<lparr>screen = False, webcam = False\<rparr> (activeStreams s)
                 else activeStreams s);
          as2 = (case map_of as1 clientId of
                   Some streams \<Rightarrow> AList.update clientId (setKind streamType True streams) as1
                 | None \<Rightarrow> as1);
          s1 = s\<lparr>activeStreams := as2,
                 streamBuffers := (streamBuffers s)(bufferKey clientId streamType \<mapsto> freshState)\<rparr>;
          s2 = broadcastStreamUpdate s1
      in s2\<lparr>console := console s2 @ [LogConnected clientId streamType]\<rparr>)"

text \<open>
  \<open>feedChunk\<close>, lines 103 to 126. Without an entry under the key it returns at once.
  Otherwise the entry is replaced by the state the loop leaves, and every frame the loop
  extracts goes to \<open>broadcastFrame\<close>, in order; \<open>broadcastFrame\<close> touches neither Map.
\<close>

definition feedChunk :: "string \<Rightarrow> kind \<Rightarrow> byte list \<Rightarrow> server \<Rightarrow> server" where
  "feedChunk clientId streamType chunk s =
     (let key = bufferKey clientId streamType in
      case streamBuffers s key of
        None \<Rightarrow> s
      | Some state \<Rightarrow>
          (let (frames, state') = feedState state chunk
           in foldl (\<lambda>s' frame. broadcastFrame clientId streamType frame s')
                (s\<lparr>streamBuffers := (streamBuffers s)(key \<mapsto> state')\<rparr>) frames))"

text \<open>\<open>unregisterStream\<close>, lines 128 to 139.\<close>

definition unregisterStream :: "string \<Rightarrow> kind \<Rightarrow> server \<Rightarrow> server" where
  "unregisterStream clientId streamType s =
     (let sb = (streamBuffers s)(bufferKey clientId streamType := None);
          as1 = (case map_of (activeStreams s) clientId of
                   None \<Rightarrow> activeStreams s
                 | Some clientStreams \<Rightarrow>
                     (let cs = setKind streamType False clientStreams in
                      if \<not> screen cs \<and> \<not> webcam cs
                      then AList.delete clientId (activeStreams s)
                      else AList.update clientId cs (activeStreams s)));
          s2 = broadcastStreamUpdate (s\<lparr>activeStreams := as1, streamBuffers := sb\<rparr>)
      in s2\<lparr>console := console s2 @ [LogDisconnected clientId streamType]\<rparr>)"

subsection \<open>Producer requests\<close>

text \<open>
  What belongs to one request: the handlers installed on \<open>req\<close> (they close over the
  stream kind and \<open>clientId\<close>), and what has been written to \<open>res\<close>, status and body.
\<close>

record exchange =
  handlers :: "(kind \<times> string) option"
  sent :: "(nat \<times> string) list"

text \<open>
  The handlers of \<open>POST /stream/screen\<close> and \<open>POST /stream/webcam\<close>, lines 50 to 84,
  which differ in the kind only. \<open>req.query.clientId\<close> is \<open>None\<close> when the parameter is
  missing; \<open>!clientId\<close> also holds for the empty string. The handler runs to its end
  before any event of the request is delivered.
\<close>

definition postStream :: "kind \<Rightarrow> string option \<Rightarrow> server \<Rightarrow> exchange \<times> server" where
  "postStream streamType query s =
     (let s0 = s\<lparr>console := console s @ [LogPost streamType query]\<rparr> in
      case query of
        Some clientId \<Rightarrow>
          if clientId = [] then
            (\<lparr>handlers = None, sent = [(400, ''Missing clientId'')]\<rparr>,
             s0\<lparr>console := console s0 @ [LogMissingClientId streamType]\<rparr>)
          else
            (\<lparr>handlers = Some (streamType, clientId), sent = [(200, [])]\<rparr>,
             registerStream clientId streamType s0)
      | None \<Rightarrow>
          (\<lparr>handlers = None, sent = [(400, ''Missing clientId'')]\<rparr>,
           s0\<lparr>console := console s0 @ [LogMissingClientId streamType]\<rparr>))"

text \<open>
  The events a request can emit. Handlers are installed for \<open>'data'\<close>, \<open>'end'\<close> and
  \<open>'error'\<close>; nothing listens to \<open>'close'\<close>.
\<close>

datatype reqEvent = Data "byte list" | End | Error | Close

definition onReqEvent :: "kind \<Rightarrow> string \<Rightarrow> reqEvent \<Rightarrow> server \<Rightarrow> server" where
  "onReqEvent streamType clientId ev s =
     (case ev of
        Data chunk \<Rightarrow> feedChunk clientId streamType chunk s
      | End \<Rightarrow> unregisterStream clientId streamType s
      | Error \<Rightarrow>
          unregisterStream clientId streamType
            (s\<lparr>console := console s @ [LogRequestError streamType clientId]\<rparr>)
      | Close \<Rightarrow> s)"

text \<open>
  One event delivered to a request: it runs the installed handler, if any. No handler
  writes to \<open>res\<close>.
\<close>

definition dispatch :: "exchange \<times> server \<Rightarrow> reqEvent \<Rightarrow> exchange \<times> server" where
  "dispatch xs ev =
     (case handlers (fst xs) of
        None \<Rightarrow> xs
      | Some (streamType, clientId) \<Rightarrow> (fst xs, onReqEvent streamType clientId ev (snd xs)))"

text \<open>A whole producer connection: the POST, then the events of its request in order.\<close>

definition producerRun :: "kind \<Rightarrow> string option \<Rightarrow> reqEvent list \<Rightarrow> server \<Rightarrow> exchange \<times> server" where
  "producerRun streamType query evs s = foldl dispatch (postStream streamType query s) evs"

text \<open>
  How often \<open>unregisterStream\<close> has run to its end for a client and kind: once for each
  line \<open>Client ... disconnected ... stream\<close> on the console.
\<close>

definition deactivations :: "string \<Rightarrow> kind \<Rightarrow> server \<Rightarrow> nat" where
  "deactivations clientId streamType s =
     length (filter (\<lambda>l. l = LogDisconnected clientId streamType) (console s))"

subsection \<open>Viewer connections\<close>

text \<open>
  The close handler installed by \<open>viewWss.on('connection')\<close>, lines 157 to 160: the only
  place where a viewer leaves \<open>viewingClients\<close>.
\<close>

definition viewerClose :: "nat \<Rightarrow> server \<Rightarrow> server" where
  "viewerClose w s =
     (let vs = filter (\<lambda>v. vid v \<noteq> w) (viewingClients s)
      in s\<lparr>viewingClients := vs, console := console s @ [LogViewerDisconnected (length vs)]\<rparr>)"

subsection \<open>Sequences of registry operations\<close>

datatype regOp = Register string kind | Unregister string kind

fun applyOp :: "server \<Rightarrow> regOp \<Rightarrow> server" where
  "applyOp s (Register clientId streamType) = registerStream clientId streamType s"
| "applyOp s (Unregister clientId streamType) = unregisterStream clientId streamType s"

text \<open>
  Whether a stream kind of a client is currently active after a sequence of operations:
  the last operation on this client and kind was a registration.
\<close>

fun noteOp :: "string \<Rightarrow> kind \<Rightarrow> bool \<Rightarrow> regOp \<Rightarrow> bool" where
  "noteOp c k a (Register c' k') = (if c' = c \<and> k' = k then True else a)"
| "noteOp c k a (Unregister c' k') = (if c' = c \<and> k' = k then False else a)"

definition activeAfter :: "regOp list \<Rightarrow> string \<Rightarrow> kind \<Rightarrow> bool" where
  "activeAfter ops c k = foldl (noteOp c k) False ops"

text \<open>The state when the module has been loaded: both Maps and the Set are empty.\<close>

definition initialServer :: server where
  "initialServer = \<lparr>activeStreams = [], streamBuffers = Map.empty, viewingClients = [], console = []\<rparr>"

fun otherKind :: "kind \<Rightarrow> kind" where
  "otherKind Screen = Webcam"
| "otherKind Webcam = Screen"

text \<open>The registry entry that the history of operations calls for.\<close>

definition expected :: "regOp list \<Rightarrow> string \<Rightarrow> presence option" where
  "expected ops c =
     (if activeAfter ops c Screen \<or> activeAfter ops c Webcam
      then Some \<lparr>screen = activeAfter ops c Screen, webcam = activeAfter ops c Webcam\<rparr>
      else None)"

text \<open>The events on which a handler runs \<open>unregisterStream\<close>.\<close>

definition terminal :: "reqEvent \<Rightarrow> bool" where
  "terminal ev \<longleftrightarrow> ev = End \<or> ev = Error"

text \<open>
  A state with two open viewers; \<open>send\<close> raises on the first one and succeeds on the
  second.
\<close>

definition twoViewers :: server where
  "twoViewers = initialServer\<lparr>viewingClients :=
     [\<lparr>vid = 1, readyState = OPEN, sendThrows = True, inbox = []\<rparr>,
      \<lparr>vid = 2, readyState = OPEN, sendThrows = False, inbox = []\<rparr>]\<rparr>"

text \<open>A payload of \<open>10 * 1024 * 1024 + 1\<close> bytes.\<close>

definition bigFrame :: "byte list" where
  "bigFrame = [0, 0, 0, 1, 66, 0, 0, 0, 0] @ replicate 10485752 0"

section \<open>Basic facts about the decoder\<close>

lemma unat_byte_of_word:
  "unat (ucast (drop_bit k (w::32 word)) :: byte) = (unat w div 2 ^ k) mod 256"
  by (simp only: unsigned_ucast_eq unat_drop_bit_eq) (simp add: take_bit_eq_mod drop_bit_eq_div)

lemma be_digits:
  fixes n :: nat
  assumes "n < 2 ^ 32"
  shows "(n div 2 ^ 24 mod 256) * 2 ^ 24 + (n div 2 ^ 16 mod 256) * 2 ^ 16
         + (n div 2 ^ 8 mod 256) * 2 ^ 8 + n mod 256 = n"
proof -
  define a where "a = n div 256"
  define b where "b = a div 256"
  define c where "c = b div 256"
  have n: "n = a * 256 + n mod 256" by (simp add: a_def)
  have a: "a = b * 256 + a mod 256" by (simp add: b_def)
  have b: "b = c * 256 + b mod 256" by (simp add: c_def)
  have d8: "n div 2 ^ 8 = a" by (simp add: a_def)
  have d16: "n div 2 ^ 16 = b"
    using div_mult2_eq [of n 256 256] by (simp add: a_def b_def)
  have d24: "n div 2 ^ 24 = c"
    using div_mult2_eq [of n 65536 256] d16 by (simp add: c_def)
  have "c < 256" using assms d24 by (simp add: less_mult_imp_div_less)
  then have cm: "c mod 256 = c" by simp
  show ?thesis
    unfolding d8 d16 d24 cm using n a b by simp
qed

text \<open>Reading back what \<open>putInt\<close> wrote gives the integer, unsigned.\<close>

lemma readUInt32BE_putInt:
  "readUInt32BE (ucast (drop_bit 24 w)) (ucast (drop_bit 16 w)) (ucast (drop_bit 8 w))
     (ucast (w::32 word)) = unat w"
proof -
  have b: "unat w < 2 ^ 32" using unsigned_less [of w] by simp
  have u3: "unat (ucast w :: byte) = unat w mod 256"
    by (simp add: unsigned_ucast_eq take_bit_eq_mod)
  show ?thesis
    unfolding readUInt32BE_def unat_byte_of_word u3 by (rule be_digits [OF b])
qed

lemma encodeFrame_shape:
  assumes "length f \<le> maxFrameLen"
  shows "\<exists>b0 b1 b2 b3. encodeFrame f = b0 # b1 # b2 # b3 # f
           \<and> readUInt32BE b0 b1 b2 b3 = length f"
proof -
  have "length f < 2 ^ 32" using assms by (simp add: maxFrameLen_def)
  then have "unat (of_nat (length f) :: 32 word) = length f"
    by (simp add: unat_of_nat)
  then show ?thesis
    using readUInt32BE_putInt [of "of_nat (length f)"]
    by (simp add: encodeFrame_def putInt_def)
qed

lemma readLength_short:
  "length (buf st) < 4 \<Longrightarrow> readLength st = Fall st"
  by (auto simp: readLength_def split: list.splits)

lemma readLength_payload:
  "need st \<noteq> 4 \<Longrightarrow> readLength st = Fall st"
  by (simp add: readLength_def)

lemma readLength_prefix:
  "need st = 4 \<Longrightarrow> buf st = b0 # b1 # b2 # b3 # rest \<Longrightarrow>
   readLength st =
     (if readUInt32BE b0 b1 b2 b3 > maxFrameLen
      then Break \<lparr>buf = rest, need = 4, payloadLen = 0\<rparr>
      else Fall \<lparr>buf = rest, need = readUInt32BE b0 b1 b2 b3,
                 payloadLen = readUInt32BE b0 b1 b2 b3\<rparr>)"
  by (simp add: readLength_def Let_def)

lemma decodeState_literal [simp]:
  "(st::decodeState)\<lparr>buf := b, need := n, payloadLen := p\<rparr>
     = \<lparr>buf = b, need = n, payloadLen = p\<rparr>"
  by (cases st) simp

lemma drain_Break:
  "readLength st = Break st' \<Longrightarrow> drain st = ([], st')"
  by (subst drain.simps) simp

lemma drain_stuck:
  "readLength st = Fall st1 \<Longrightarrow> \<not> (0 < need st1 \<and> need st1 \<le> length (buf st1)) \<Longrightarrow>
   drain st = ([], st1)"
  by (subst drain.simps) auto

lemma drain_emit:
  "readLength st = Fall st1 \<Longrightarrow> 0 < need st1 \<Longrightarrow> need st1 \<le> length (buf st1) \<Longrightarrow>
   drain st =
     (take (need st1) (buf st1)
        # fst (drain \<lparr>buf = drop (need st1) (buf st1), need = 4, payloadLen = 0\<rparr>),
      snd (drain \<lparr>buf = drop (need st1) (buf st1), need = 4, payloadLen = 0\<rparr>))"
  by (subst drain.simps) (simp add: Let_def split: prod.splits)

section \<open>Oversized and zero lengths\<close>

text \<open>
  C2. In a state that awaits a length prefix (\<open>need = 4\<close>), let the buffered bytes
  together with the chunk start with four bytes whose big-endian value exceeds
  \<open>10 * 1024 * 1024\<close>. The decoder emits no frame and raises nothing, drops exactly
  these four bytes, is back in the state awaiting a prefix, and keeps every later byte
  in its buffer: whatever chunk comes next is decoded as by a fresh decoder that is given
  the bytes after the prefix followed by that chunk.
\<close>

theorem oversized_prefix_dropped:
  assumes "need st = 4"
    and "buf st @ chunk = b0 # b1 # b2 # b3 # rest"
    and "readUInt32BE b0 b1 b2 b3 > maxFrameLen"
  shows "feedState st chunk = ([], \<lparr>buf = rest, need = 4, payloadLen = 0\<rparr>)
         \<and> (\<forall>c. feedState (snd (feedState st chunk)) c = feedState freshState (rest @ c))"
proof -
  have "readLength (st\<lparr>buf := buf st @ chunk\<rparr>)
          = Break \<lparr>buf = rest, need = 4, payloadLen = 0\<rparr>"
    using assms readLength_prefix [of "st\<lparr>buf := buf st @ chunk\<rparr>" b0 b1 b2 b3 rest]
    by simp
  then have "feedState st chunk = ([], \<lparr>buf = rest, need = 4, payloadLen = 0\<rparr>)"
    by (simp add: feedState_def drain_Break)
  then show ?thesis
    by (simp add: feedState_def freshState_def)
qed

theorem oversized_prefix_dropped_witness:
  "feedState freshState [255, 255, 255, 255, 0, 0, 0, 1, 65]
     = ([], \<lparr>buf = [0, 0, 0, 1, 65], need = 4, payloadLen = 0\<rparr>)
   \<and> (\<forall>c. feedState (snd (feedState freshState [255, 255, 255, 255, 0, 0, 0, 1, 65])) c
          = feedState freshState ([0, 0, 0, 1, 65] @ c))"
proof -
  have h1: "need freshState = 4"
    by (simp add: freshState_def)
  have h2: "buf freshState @ [255, 255, 255, 255, 0, 0, 0, 1, 65]
              = 255 # 255 # 255 # 255 # [0, 0, 0, 1, 65]"
    by (simp add: freshState_def)
  have h3: "readUInt32BE 255 255 255 255 > maxFrameLen"
    by (simp add: readUInt32BE_def maxFrameLen_def)
  show ?thesis
    by (rule oversized_prefix_dropped [OF h1 h2 h3])
qed

text \<open>
  C3, as the specification states it, fails: after the prefix \<open>00 00 00 00\<close> the fresh
  decoder has emitted no payload at all, and \<open>need\<close> is 0, not 4.
\<close>

theorem zero_length_counterexample:
  "feedState freshState [0, 0, 0, 0] = ([], \<lparr>buf = [], need = 0, payloadLen = 0\<rparr>)
   \<and> fst (feedState freshState [0, 0, 0, 0]) \<noteq> [[]]
   \<and> need (snd (feedState freshState [0, 0, 0, 0])) \<noteq> 4"
  by (simp add: feedState_def freshState_def drain.simps readLength_def readUInt32BE_def
      maxFrameLen_def)

text \<open>
  C3, amended. In a state that awaits a length prefix, when the buffered bytes together
  with the chunk start with the prefix \<open>00 00 00 00\<close>, the decoder consumes these four
  bytes and emits no payload: the second \<open>if\<close> of the loop asks for \<open>need > 0\<close>.
\<close>

theorem zero_length_emits_nothing:
  assumes "need st = 4"
    and "buf st @ chunk = 0 # 0 # 0 # 0 # rest"
  shows "fst (feedState st chunk) = [] \<and> buf (snd (feedState st chunk)) = rest"
proof -
  have "readLength (st\<lparr>buf := buf st @ chunk\<rparr>)
          = Fall \<lparr>buf = rest, need = 0, payloadLen = 0\<rparr>"
    using assms readLength_prefix [of "st\<lparr>buf := buf st @ chunk\<rparr>" 0 0 0 0 rest]
    by (simp add: readUInt32BE_def)
  then have "feedState st chunk = ([], \<lparr>buf = rest, need = 0, payloadLen = 0\<rparr>)"
    by (simp add: feedState_def drain_stuck)
  then show ?thesis by simp
qed

theorem zero_length_emits_nothing_witness:
  "fst (feedState freshState [0, 0, 0, 0, 7]) = []
   \<and> buf (snd (feedState freshState [0, 0, 0, 0, 7])) = [7]"
proof -
  have h1: "need freshState = 4"
    by (simp add: freshState_def)
  have h2: "buf freshState @ [0, 0, 0, 0, 7] = 0 # 0 # 0 # 0 # [7]"
    by (simp add: freshState_def)
  show ?thesis
    by (rule zero_length_emits_nothing [OF h1 h2])
qed

section \<open>Where the decoder stands after a prefix of the stream\<close>

lemma stateAt_Cons_prefix:
  "k < 4 \<Longrightarrow>
   stateAt (f # fs) k = ([], \<lparr>buf = take k (encodeFrame f), need = 4, payloadLen = 0\<rparr>)"
  by simp

lemma stateAt_Cons_empty:
  "4 \<le> k \<Longrightarrow> f = [] \<Longrightarrow>
   stateAt (f # fs) k = ([], \<lparr>buf = take (k - 4) (encodeFrames fs), need = 0, payloadLen = 0\<rparr>)"
  by simp

lemma stateAt_Cons_payload:
  "4 \<le> k \<Longrightarrow> f \<noteq> [] \<Longrightarrow> k < 4 + length f \<Longrightarrow>
   stateAt (f # fs) k
     = ([], \<lparr>buf = take (k - 4) f, need = length f, payloadLen = length f\<rparr>)"
  by simp

lemma stateAt_Cons_next:
  "f \<noteq> [] \<Longrightarrow> 4 + length f \<le> k \<Longrightarrow>
   stateAt (f # fs) k
     = (f # fst (stateAt fs (k - 4 - length f)), snd (stateAt fs (k - 4 - length f)))"
  by simp

declare stateAt.simps(2) [simp del]

lemma encodeFrames_Cons: "encodeFrames (f # fs) = encodeFrame f @ encodeFrames fs"
  by (simp add: encodeFrames_def)

lemma length_encodeFrame: "length (encodeFrame f) = 4 + length f"
  by (simp add: encodeFrame_def putInt_def)

lemma take_Cons4:
  "4 \<le> k \<Longrightarrow> take k (b0 # b1 # b2 # b3 # xs) = b0 # b1 # b2 # b3 # take (k - 4) xs"
  by (simp add: take_Cons' numeral_eq_Suc)

lemma drain_dead: "need st = 0 \<Longrightarrow> drain st = ([], st)"
  by (simp add: drain_stuck readLength_payload)

text \<open>
  The loop, run in the state awaiting a prefix on the first \<open>k\<close> bytes of an encoding of
  plain frames, stops exactly where \<open>stateAt\<close> says.
\<close>

lemma drain_prefix_mode:
  assumes "\<forall>f \<in> set fs. plainFrame f" and "k \<le> length (encodeFrames fs)"
  shows "drain \<lparr>buf = take k (encodeFrames fs), need = 4, payloadLen = 0\<rparr> = stateAt fs k"
  using assms
proof (induction fs arbitrary: k)
  case Nil
  then show ?case
    by (simp add: encodeFrames_def freshState_def drain_stuck readLength_short)
next
  case (Cons f fs)
  let ?E = "encodeFrames fs"
  from Cons.prems have pf: "length f \<le> maxFrameLen" "length f \<noteq> 4"
    and rest: "\<forall>g \<in> set fs. plainFrame g"
    by (simp_all add: plainFrame_def)
  obtain b0 b1 b2 b3 where enc: "encodeFrame f = b0 # b1 # b2 # b3 # f"
    and len: "readUInt32BE b0 b1 b2 b3 = length f"
    using encodeFrame_shape [OF pf(1)] by blast
  have S: "encodeFrames (f # fs) = b0 # b1 # b2 # b3 # f @ ?E"
    by (simp add: encodeFrames_Cons enc)
  have kS: "k \<le> 4 + length f + length ?E"
    using Cons.prems(2) by (simp add: S)
  show ?case
  proof (cases "k < 4")
    case True
    have t: "take k (encodeFrames (f # fs)) = take k (encodeFrame f)"
      using True by (simp add: encodeFrames_Cons length_encodeFrame)
    have "length (take k (encodeFrame f)) < 4" using True by simp
    then show ?thesis
      using True by (simp add: t drain_stuck readLength_short stateAt_Cons_prefix)
  next
    case False
    then have k4: "4 \<le> k" by simp
    let ?st = "\<lparr>buf = take k (encodeFrames (f # fs)), need = 4, payloadLen = 0\<rparr>"
    have b: "buf ?st = b0 # b1 # b2 # b3 # take (k - 4) (f @ ?E)"
      by (simp add: S take_Cons4 [OF k4])
    have rl: "readLength ?st
        = Fall \<lparr>buf = take (k - 4) (f @ ?E), need = length f, payloadLen = length f\<rparr>"
      using readLength_prefix [OF _ b] pf(1) by (simp add: len)
    show ?thesis
    proof (cases "f = []")
      case True
      then show ?thesis
        using k4 rl by (simp add: drain_stuck stateAt_Cons_empty)
    next
      case fne: False
      show ?thesis
      proof (cases "k < 4 + length f")
        case True
        then show ?thesis
          using k4 fne rl by (simp add: drain_stuck stateAt_Cons_payload)
      next
        case False
        then have kf: "4 + length f \<le> k" by simp
        have tk: "take (length f) (take (k - 4) (f @ ?E)) = f"
          using kf by (simp add: min_def)
        have dr: "drop (length f) (take (k - 4) (f @ ?E)) = take (k - 4 - length f) ?E"
          using kf by (simp add: drop_take)
        have k': "k - 4 - length f \<le> length ?E" using kS by simp
        have ih: "drain \<lparr>buf = take (k - 4 - length f) ?E, need = 4, payloadLen = 0\<rparr>
                    = stateAt fs (k - 4 - length f)"
          by (rule Cons.IH [OF rest k'])
        have "drain ?st = (f # fst (stateAt fs (k - 4 - length f)),
                           snd (stateAt fs (k - 4 - length f)))"
        proof -
          let ?st1 = "\<lparr>buf = take (k - 4) (f @ ?E), need = length f, payloadLen = length f\<rparr>"
          have n1: "0 < need ?st1" using fne by simp
          have n2: "need ?st1 \<le> length (buf ?st1)" using kf kS by simp
          have s1: "take (need ?st1) (buf ?st1) = f" using tk by simp
          have s2: "drop (need ?st1) (buf ?st1) = take (k - 4 - length f) ?E" using dr by simp
          show ?thesis
            using drain_emit [OF rl n1 n2] unfolding s1 s2 ih .
        qed
        then show ?thesis
          using fne kf by (simp add: stateAt_Cons_next)
      qed
    qed
  qed
qed


lemma drop_Cons4:
  "4 \<le> k \<Longrightarrow> drop k (b0 # b1 # b2 # b3 # xs) = drop (k - 4) xs"
  by (simp add: drop_Cons' numeral_eq_Suc)

lemma take_take_drop: "take i xs @ take j (drop i xs) = take (i + j) xs"
  by (simp add: take_add)

text \<open>
  Feeding the next \<open>m\<close> bytes of the encoding moves the decoder from position \<open>k\<close>
  to position \<open>k + m\<close> and emits the frames completed in between.
\<close>

lemma feedState_stateAt:
  assumes "\<forall>f \<in> set fs. plainFrame f" and "k + m \<le> length (encodeFrames fs)"
  shows "snd (feedState (snd (stateAt fs k)) (take m (drop k (encodeFrames fs))))
           = snd (stateAt fs (k + m))
         \<and> fst (stateAt fs k) @ fst (feedState (snd (stateAt fs k)) (take m (drop k (encodeFrames fs))))
           = fst (stateAt fs (k + m))"
  using assms
proof (induction fs arbitrary: k)
  case Nil
  then show ?case
    by (simp add: encodeFrames_def freshState_def feedState_def drain_stuck readLength_short)
next
  case (Cons f fs)
  let ?E = "encodeFrames fs"
  let ?S = "encodeFrames (f # fs)"
  let ?c = "take m (drop k ?S)"
  from Cons.prems have pf: "length f \<le> maxFrameLen" "length f \<noteq> 4"
    and rest: "\<forall>g \<in> set fs. plainFrame g"
    by (simp_all add: plainFrame_def)
  obtain b0 b1 b2 b3 where enc: "encodeFrame f = b0 # b1 # b2 # b3 # f"
    using encodeFrame_shape [OF pf(1)] by blast
  have S: "?S = b0 # b1 # b2 # b3 # f @ ?E"
    by (simp add: encodeFrames_Cons enc)
  have kS: "k + m \<le> 4 + length f + length ?E"
    using Cons.prems(2) by (simp add: S)
  text \<open>In the first three cases nothing was emitted up to \<open>k\<close>.\<close>
  have quiet: ?case
    if res: "feedState (snd (stateAt (f # fs) k)) ?c = stateAt (f # fs) (k + m)"
      and e: "fst (stateAt (f # fs) k) = []"
    by (simp add: res e)
  show ?case
  proof (cases "k < 4")
    case True
    have t: "take k (encodeFrame f) = take k ?S"
      using True by (simp add: encodeFrames_Cons length_encodeFrame)
    have st: "stateAt (f # fs) k = ([], \<lparr>buf = take k ?S, need = 4, payloadLen = 0\<rparr>)"
      using True by (simp add: t stateAt_Cons_prefix)
    have "feedState (snd (stateAt (f # fs) k)) ?c
            = drain \<lparr>buf = take (k + m) ?S, need = 4, payloadLen = 0\<rparr>"
      unfolding st feedState_def snd_conv using take_take_drop [of k ?S m] by simp
    also have "\<dots> = stateAt (f # fs) (k + m)"
      by (rule drain_prefix_mode [OF Cons.prems])
    finally show ?thesis
      by (rule quiet) (simp add: st)
  next
    case False
    then have k4: "4 \<le> k" by simp
    have c: "?c = take m (drop (k - 4) (f @ ?E))"
      by (simp add: S drop_Cons4 [OF k4])
    show ?thesis
    proof (cases "f = []")
      case True
      have st: "stateAt (f # fs) k = ([], \<lparr>buf = take (k - 4) ?E, need = 0, payloadLen = 0\<rparr>)"
        using k4 True by (simp add: stateAt_Cons_empty)
      have "feedState (snd (stateAt (f # fs) k)) ?c
              = drain \<lparr>buf = take (k - 4 + m) ?E, need = 0, payloadLen = 0\<rparr>"
        unfolding st c feedState_def snd_conv
        using True take_take_drop [of "k - 4" ?E m] by simp
      also have "\<dots> = ([], \<lparr>buf = take (k - 4 + m) ?E, need = 0, payloadLen = 0\<rparr>)"
        by (simp add: drain_dead)
      also have "\<dots> = stateAt (f # fs) (k + m)"
        using k4 True by (simp add: stateAt_Cons_empty)
      finally show ?thesis
        by (rule quiet) (simp add: st)
    next
      case fne: False
      show ?thesis
      proof (cases "k < 4 + length f")
        case True
        have st: "stateAt (f # fs) k
            = ([], \<lparr>buf = take (k - 4) f, need = length f, payloadLen = length f\<rparr>)"
          using k4 fne True by (simp add: stateAt_Cons_payload)
        have tf: "take (k - 4) f = take (k - 4) (f @ ?E)" using True by simp
        let ?B = "take (k - 4 + m) (f @ ?E)"
        let ?st1 = "\<lparr>buf = ?B, need = length f, payloadLen = length f\<rparr>"
        have bb: "take (k - 4) f @ take m (drop (k - 4) (f @ ?E)) = ?B"
          unfolding tf by (rule take_take_drop)
        have fd: "feedState (snd (stateAt (f # fs) k)) ?c = drain ?st1"
          unfolding st c feedState_def snd_conv using bb by simp
        have rl: "readLength ?st1 = Fall ?st1"
          using pf(2) by (simp add: readLength_payload)
        have lB: "length ?B = k - 4 + m" using kS k4 by simp
        show ?thesis
        proof (cases "k + m < 4 + length f")
          case True
          have ns: "\<not> (0 < need ?st1 \<and> need ?st1 \<le> length (buf ?st1))"
            using True k4 lB by auto
          have B: "?B = take (k + m - 4) f" using True k4 by simp
          note fd
          also have "drain ?st1 = ([], ?st1)"
            by (rule drain_stuck [OF rl ns])
          also have "\<dots> = stateAt (f # fs) (k + m)"
            unfolding B using k4 fne True by (simp add: stateAt_Cons_payload)
          finally show ?thesis
            by (rule quiet) (simp add: st)
        next
          case False
          then have kf: "4 + length f \<le> k + m" by simp
          have n1: "0 < need ?st1" using fne by simp
          have n2: "need ?st1 \<le> length (buf ?st1)" using kf lB k4 by simp
          have s1: "take (need ?st1) (buf ?st1) = f" using kf k4 by (simp add: min_def)
          have s2: "drop (need ?st1) (buf ?st1) = take (k + m - 4 - length f) ?E"
            using kf k4 by (simp add: drop_take)
          have k': "k + m - 4 - length f \<le> length ?E" using kS by simp
          have ih: "drain \<lparr>buf = take (k + m - 4 - length f) ?E, need = 4, payloadLen = 0\<rparr>
                      = stateAt fs (k + m - 4 - length f)"
            by (rule drain_prefix_mode [OF rest k'])
          note fd
          also have "drain ?st1 = (f # fst (stateAt fs (k + m - 4 - length f)),
                              snd (stateAt fs (k + m - 4 - length f)))"
            using drain_emit [OF rl n1 n2] unfolding s1 s2 ih .
          also have "\<dots> = stateAt (f # fs) (k + m)"
            using fne kf by (simp add: stateAt_Cons_next)
          finally show ?thesis
            by (rule quiet) (simp add: st)
        qed
      next
        case False
        then have kf: "4 + length f \<le> k" by simp
        let ?k' = "k - 4 - length f"
        have st: "stateAt (f # fs) k = (f # fst (stateAt fs ?k'), snd (stateAt fs ?k'))"
          using fne kf by (simp add: stateAt_Cons_next)
        have km: "k + m - 4 - length f = ?k' + m" using kf by simp
        have st': "stateAt (f # fs) (k + m)
                     = (f # fst (stateAt fs (?k' + m)), snd (stateAt fs (?k' + m)))"
          using fne kf stateAt_Cons_next [of f "k + m" fs] by (simp add: km)
        have c': "?c = take m (drop ?k' ?E)"
          using kf by (simp add: c)
        have k'm: "?k' + m \<le> length ?E" using kS kf by simp
        show ?thesis
          using Cons.IH [OF rest k'm] unfolding st st' c' by simp
      qed
    qed
  qed
qed

lemma stateAt_0: "stateAt fs 0 = ([], freshState)"
  by (cases fs) (simp_all add: freshState_def stateAt_Cons_prefix)

text \<open>The same for any list of chunks that make up the rest of the encoding.\<close>

lemma feedChunks_stateAt:
  assumes "\<forall>f \<in> set fs. plainFrame f"
    and "k \<le> length (encodeFrames fs)"
    and "concat chunks = drop k (encodeFrames fs)"
  shows "fst (stateAt fs k) @ fst (feedChunks (snd (stateAt fs k)) chunks)
           = fst (stateAt fs (length (encodeFrames fs)))"
  using assms(2,3)
proof (induction chunks arbitrary: k)
  case Nil
  then have "k = length (encodeFrames fs)" by simp
  then show ?case by simp
next
  case (Cons c cs)
  let ?S = "encodeFrames fs"
  let ?m = "length c"
  have d: "drop k ?S = c @ concat cs" using Cons.prems(2) by simp
  have c: "c = take ?m (drop k ?S)" by (simp add: d)
  have "length (drop k ?S) = ?m + length (concat cs)" by (simp add: d)
  then have km: "k + ?m \<le> length ?S" using Cons.prems(1) by simp
  have cs: "concat cs = drop (k + ?m) ?S"
    using d by (metis add.commute append_eq_conv_conj drop_drop)
  from feedState_stateAt [OF assms(1) km]
  have f1: "snd (feedState (snd (stateAt fs k)) c) = snd (stateAt fs (k + ?m))"
    and f2: "fst (stateAt fs k) @ fst (feedState (snd (stateAt fs k)) c)
               = fst (stateAt fs (k + ?m))"
    using c by simp_all
  have ih: "fst (stateAt fs (k + ?m)) @ fst (feedChunks (snd (stateAt fs (k + ?m))) cs)
              = fst (stateAt fs (length ?S))"
    by (rule Cons.IH [OF km cs])
  show ?case
    using f1 f2 ih by (simp add: split_beta Let_def flip: append_assoc)
qed

lemma stateAt_end:
  "fst (stateAt fs (length (encodeFrames fs))) = takeWhile (\<lambda>f. f \<noteq> []) fs"
  by (induction fs)
    (simp_all add: encodeFrames_Cons length_encodeFrame stateAt_Cons_next stateAt_Cons_empty)

text \<open>
  What a fresh decoder emits for the whole encoding of plain frames fed in one chunk: the
  frames up to the first empty one.
\<close>

lemma single_chunk_decodes:
  assumes "\<forall>f \<in> set frames. plainFrame f"
  shows "fst (feedState freshState (encodeFrames frames)) = takeWhile (\<lambda>f. f \<noteq> []) frames"
proof -
  have "drain \<lparr>buf = take (length (encodeFrames frames)) (encodeFrames frames),
                need = 4, payloadLen = 0\<rparr>
          = stateAt frames (length (encodeFrames frames))"
    by (rule drain_prefix_mode [OF assms]) simp
  then show ?thesis
    by (simp add: feedState_def freshState_def stateAt_end)
qed

section \<open>Chunk invariance\<close>

text \<open>
  C1, as the specification states it, fails, in two ways.

  The frame sequence with the single payload \<open>01 02 03 04\<close> is encoded as
  \<open>00 00 00 04 01 02 03 04\<close>. Fed in one chunk, the payload is emitted. Split after the
  fifth byte, nothing is emitted: after the first chunk \<open>need\<close> is the payload length 4,
  which the next call takes for the mark of an awaited prefix, and the payload is read as
  an oversized length.

  A payload of more than 10 MiB is dropped by the guard on line 112. Fed in one chunk,
  the loop breaks at the prefix and nothing is emitted; when the prefix comes in a chunk
  of its own, the payload bytes after it are read as lengths and payloads.
\<close>

lemma length_bigFrame: "length bigFrame = maxFrameLen + 1"
  by (simp add: bigFrame_def maxFrameLen_def)

lemma putInt_bigFrame: "putInt (of_nat (length bigFrame)) = [0, 160, 0, 1]"
  by (simp add: bigFrame_def putInt_def drop_bit_eq_div)

theorem chunk_invariance_counterexample:
  "concat [[0, 0, 0, 4, 1], [2, 3, 4]] = encodeFrames [[1, 2, 3, 4]]
   \<and> fst (feedState freshState (encodeFrames [[1, 2, 3, 4]])) = [[1, 2, 3, 4]]
   \<and> fst (feedChunks freshState [[0, 0, 0, 4, 1], [2, 3, 4]]) = []
   \<and> concat [[0, 160, 0, 1], bigFrame] = encodeFrames [bigFrame]
   \<and> fst (feedState freshState (encodeFrames [bigFrame])) = []
   \<and> fst (feedChunks freshState [[0, 160, 0, 1], bigFrame]) = [[66]]"
proof -
  have small: "concat [[0, 0, 0, 4, 1], [2, 3, 4]] = encodeFrames [[1, 2, 3, 4]]
      \<and> fst (feedState freshState (encodeFrames [[1, 2, 3, 4]])) = [[1, 2, 3, 4]]
      \<and> fst (feedChunks freshState [[0, 0, 0, 4, 1], [2, 3, 4]]) = []"
    by (simp add: encodeFrames_def encodeFrame_def putInt_def feedState_def freshState_def
        drain.simps readLength_def readUInt32BE_def maxFrameLen_def)
  have e: "encodeFrames [bigFrame] = [0, 160, 0, 1] @ bigFrame"
    by (simp add: encodeFrames_def encodeFrame_def putInt_bigFrame)
  have big: "concat [[0, 160, 0, 1], bigFrame] = encodeFrames [bigFrame]
      \<and> fst (feedState freshState (encodeFrames [bigFrame])) = []
      \<and> fst (feedChunks freshState [[0, 160, 0, 1], bigFrame]) = [[66]]"
    unfolding e
    by (simp add: bigFrame_def feedState_def freshState_def drain.simps readLength_def
        readUInt32BE_def maxFrameLen_def)
  show ?thesis
    using small big by simp
qed

text \<open>
  C1, amended. For every finite sequence of frames whose payloads are at most 10 MiB long
  and not exactly 4 bytes long, and for every way of splitting the concatenated encoding
  into successive chunks, feeding the chunks one by one to a fresh decoder emits the same
  sequence of payloads, in the same order, as feeding all the bytes in one chunk.
\<close>

theorem chunk_invariance:
  assumes "\<forall>f \<in> set frames. plainFrame f"
    and "concat chunks = encodeFrames frames"
  shows "fst (feedChunks freshState chunks) = fst (feedState freshState (encodeFrames frames))"
proof -
  have "fst (stateAt frames 0) @ fst (feedChunks (snd (stateAt frames 0)) chunks)
          = fst (stateAt frames (length (encodeFrames frames)))"
    by (rule feedChunks_stateAt [OF assms(1)]) (simp_all add: assms(2))
  then have a: "fst (feedChunks freshState chunks)
                  = fst (stateAt frames (length (encodeFrames frames)))"
    by (simp add: stateAt_0)
  have "drain \<lparr>buf = take (length (encodeFrames frames)) (encodeFrames frames),
                need = 4, payloadLen = 0\<rparr>
          = stateAt frames (length (encodeFrames frames))"
    by (rule drain_prefix_mode [OF assms(1)]) simp
  then have b: "feedState freshState (encodeFrames frames)
                  = stateAt frames (length (encodeFrames frames))"
    by (simp add: feedState_def freshState_def)
  show ?thesis by (simp add: a b)
qed

theorem chunk_invariance_witness:
  "plainFrame [1, 2, 3, 4, 5] \<and> plainFrame [9]
   \<and> concat [[0, 0, 0, 5, 1], [2, 3, 4, 5, 0, 0], [0, 1, 9]]
       = encodeFrames [[1, 2, 3, 4, 5], [9]]
   \<and> fst (feedChunks freshState [[0, 0, 0, 5, 1], [2, 3, 4, 5, 0, 0], [0, 1, 9]])
       = fst (feedState freshState (encodeFrames [[1, 2, 3, 4, 5], [9]]))"
proof -
  have h1: "\<forall>f \<in> set [[1, 2, 3, 4, 5], [9 :: byte]]. plainFrame f"
    by (simp add: plainFrame_def maxFrameLen_def)
  have h2: "concat [[0, 0, 0, 5, 1], [2, 3, 4, 5, 0, 0], [0, 1, 9]]
              = encodeFrames [[1, 2, 3, 4, 5], [9]]"
    by (simp add: encodeFrames_def encodeFrame_def putInt_def)
  show ?thesis
    using h1 h2 chunk_invariance [OF h1 h2] by simp
qed

section \<open>The registry\<close>

lemma activeStreams_broadcast [simp]: "activeStreams (broadcast l m s) = activeStreams s"
  by (simp add: broadcast_def)

lemma streamBuffers_broadcast [simp]: "streamBuffers (broadcast l m s) = streamBuffers s"
  by (simp add: broadcast_def)

lemma map_of_registerStream:
  "map_of (activeStreams (registerStream c k s))
     = (map_of (activeStreams s))
         (c \<mapsto> setKind k True (case map_of (activeStreams s) c of
                                  None \<Rightarrow> \<lparr>screen = False, webcam = False\<rparr> | Some p \<Rightarrow> p))"
  by (auto simp: registerStream_def broadcastStreamUpdate_def Let_def update_conv'
      split: option.splits)

lemma map_of_unregisterStream:
  "map_of (activeStreams (unregisterStream c k s))
     = (case map_of (activeStreams s) c of
          None \<Rightarrow> map_of (activeStreams s)
        | Some p \<Rightarrow>
            if \<not> screen (setKind k False p) \<and> \<not> webcam (setKind k False p)
            then (map_of (activeStreams s))(c := None)
            else (map_of (activeStreams s))(c \<mapsto> setKind k False p))"
  by (auto simp: unregisterStream_def broadcastStreamUpdate_def Let_def update_conv' delete_conv'
      split: option.splits)

lemma activeAfter_snoc:
  "activeAfter (ops @ [op]) c k = noteOp c k (activeAfter ops c k) op"
  by (simp add: activeAfter_def)

lemma registry_tracks:
  assumes "activeStreams s0 = []"
  shows "map_of (activeStreams (foldl applyOp s0 ops)) c = expected ops c"
proof (induction ops arbitrary: c rule: rev_induct)
  case Nil
  then show ?case by (simp add: assms expected_def activeAfter_def)
next
  case (snoc op ops)
  show ?case
  proof (cases op)
    case (Register c' k')
    then show ?thesis
      using snoc [of c] snoc [of c']
      by (cases k') (auto simp: map_of_registerStream expected_def activeAfter_snoc split: if_splits)
  next
    case (Unregister c' k')
    then show ?thesis
      using snoc [of c] snoc [of c']
      by (cases k') (auto simp: map_of_unregisterStream expected_def activeAfter_snoc split: if_splits option.splits)
  qed
qed


lemma fst_set_streamList: "fst ` set (streamList s) = fst ` set (activeStreams s)"
  by (force simp: streamList_def)

lemma in_registry_iff: "c \<in> fst ` set al \<longleftrightarrow> map_of al c \<noteq> None"
  by (simp add: map_of_eq_None_iff)

text \<open>
  C4. Start from the empty registry and run any sequence of \<open>registerStream\<close> and
  \<open>unregisterStream\<close> calls. Then \<open>activeStreams\<close> has an entry for a client exactly when
  one of its two stream kinds is currently active, that is, when the last operation on
  that client and kind was a registration; the snapshot \<open>streamList\<close> lists the same
  clients. In particular, when the other kind is inactive, \<open>registerStream c k\<close> followed
  at once by \<open>unregisterStream c k\<close> leaves \<open>c\<close> out of the snapshot.
\<close>

theorem registry_entry_iff_active:
  assumes "activeStreams s0 = []"
  shows "(c \<in> fst ` set (activeStreams (foldl applyOp s0 ops))
            \<longleftrightarrow> activeAfter ops c Screen \<or> activeAfter ops c Webcam)
       \<and> (c \<in> fst ` set (streamList (foldl applyOp s0 ops))
            \<longleftrightarrow> activeAfter ops c Screen \<or> activeAfter ops c Webcam)
       \<and> (\<not> activeAfter ops c (otherKind k) \<longrightarrow>
            c \<notin> fst ` set (streamList (foldl applyOp s0 (ops @ [Register c k, Unregister c k]))))"
proof -
  have a: "c \<in> fst ` set (activeStreams (foldl applyOp s0 xs))
             \<longleftrightarrow> activeAfter xs c Screen \<or> activeAfter xs c Webcam" for xs
    unfolding in_registry_iff registry_tracks [OF assms] by (simp add: expected_def)
  have b: "activeAfter (ops @ [Register c k, Unregister c k]) c k' = (k' \<noteq> k \<and> activeAfter ops c k')" for k'
    by (simp add: activeAfter_def)
  have c: "\<not> activeAfter ops c (otherKind k) \<Longrightarrow>
           \<not> (activeAfter (ops @ [Register c k, Unregister c k]) c Screen
              \<or> activeAfter (ops @ [Register c k, Unregister c k]) c Webcam)"
    unfolding b by (cases k) auto
  show ?thesis
    unfolding fst_set_streamList a using c by blast
qed

theorem registry_entry_iff_active_witness:
  "activeStreams initialServer = []
   \<and> ''a'' \<in> fst ` set (activeStreams (foldl applyOp initialServer
        [Register ''a'' Screen, Register ''a'' Webcam, Unregister ''a'' Screen]))
   \<and> ''a'' \<in> fst ` set (streamList (foldl applyOp initialServer
        [Register ''a'' Screen, Register ''a'' Webcam, Unregister ''a'' Screen]))
   \<and> ''b'' \<notin> fst ` set (streamList (foldl applyOp initialServer
        ([Register ''a'' Screen] @ [Register ''b'' Screen, Unregister ''b'' Screen])))"
proof -
  have h: "activeStreams initialServer = []"
    by (simp add: initialServer_def)
  have a: "activeAfter [Register ''a'' Screen, Register ''a'' Webcam, Unregister ''a'' Screen]
             ''a'' Webcam"
    by (simp add: activeAfter_def)
  have b: "\<not> activeAfter [Register ''a'' Screen] ''b'' (otherKind Screen)"
    by (simp add: activeAfter_def)
  show ?thesis
    using h a b
      registry_entry_iff_active [OF h, of "''a''"
        "[Register ''a'' Screen, Register ''a'' Webcam, Unregister ''a'' Screen]" Screen]
      registry_entry_iff_active [OF h, of "''b''" "[Register ''a'' Screen]" Screen]
    by blast
qed

section \<open>Producer requests\<close>

lemma foldl_dispatch_rejected:
  "handlers (fst xs) = None \<Longrightarrow> foldl dispatch xs evs = xs"
  by (induction evs) (simp_all add: dispatch_def)

text \<open>
  C7. A POST to \<open>/stream/screen\<close> or \<open>/stream/webcam\<close> without \<open>clientId\<close> is answered
  with status 400 and the body \<open>Missing clientId\<close>. Nothing but the console changes:
  \<open>activeStreams\<close>, \<open>streamBuffers\<close> and the viewers, with what they have received, are
  as before, no handler is installed, and the events of the request reach no code.
\<close>

theorem missing_clientId_rejected:
  "fst (postStream k None s) = \<lparr>handlers = None, sent = [(400, ''Missing clientId'')]\<rparr>
   \<and> snd (postStream k None s) = s\<lparr>console := console s @ [LogPost k None, LogMissingClientId k]\<rparr>
   \<and> activeStreams (snd (postStream k None s)) = activeStreams s
   \<and> streamBuffers (snd (postStream k None s)) = streamBuffers s
   \<and> viewingClients (snd (postStream k None s)) = viewingClients s
   \<and> producerRun k None evs s = postStream k None s"
  by (simp add: postStream_def producerRun_def foldl_dispatch_rejected)

lemma fst_dispatch: "fst (dispatch xs ev) = fst xs"
  by (simp add: dispatch_def split: option.splits prod.splits)

lemma fst_foldl_dispatch: "fst (foldl dispatch xs evs) = fst xs"
  by (induction evs arbitrary: xs) (simp_all add: fst_dispatch)

text \<open>
  C8, as the specification states it, fails: the response is written by the POST handler
  itself. It has been sent before any event of the request, and while the stream has not
  ended.
\<close>

theorem response_at_post_counterexample:
  "sent (fst (producerRun Screen (Some ''a'') [] initialServer)) = [(200, [])]
   \<and> sent (fst (producerRun Screen (Some ''a'') [Data [0, 0]] initialServer)) = [(200, [])]"
  by (simp add: producerRun_def fst_dispatch postStream_def)

text \<open>
  C8, amended. For every POST to \<open>/stream/{kind}\<close> with a non-empty \<open>clientId\<close>, the
  response with status 200 and an empty body is sent exactly once, by the POST handler
  right after registration; whatever events the request emits afterwards, nothing more is
  written to the response.
\<close>

theorem response_sent_at_post:
  assumes "clientId \<noteq> []"
  shows "sent (fst (postStream k (Some clientId) s)) = [(200, [])]
         \<and> sent (fst (producerRun k (Some clientId) evs s)) = [(200, [])]"
  using assms by (simp add: producerRun_def fst_foldl_dispatch postStream_def)

theorem response_sent_at_post_witness:
  "''a'' \<noteq> []
   \<and> sent (fst (postStream Webcam (Some ''a'') initialServer)) = [(200, [])]
   \<and> sent (fst (producerRun Webcam (Some ''a'') [Data [0, 0, 0, 1, 65], End] initialServer))
       = [(200, [])]"
proof -
  have h: "''a'' \<noteq> []" by simp
  show ?thesis
    using h response_sent_at_post [OF h, of Webcam initialServer "[Data [0, 0, 0, 1, 65], End]"]
    by blast
qed


lemma deactivations_append:
  "deactivations c k (s\<lparr>console := console s @ ls\<rparr>)
     = deactivations c k s + length (filter (\<lambda>l. l = LogDisconnected c k) ls)"
  by (simp add: deactivations_def)

lemma deactivations_streamBuffers [simp]:
  "deactivations c k (s\<lparr>streamBuffers := b\<rparr>) = deactivations c k s"
  by (simp add: deactivations_def)

lemma deactivations_broadcast:
  "l \<noteq> LogDisconnected c k \<Longrightarrow> deactivations c k (broadcast l m s) = deactivations c k s"
  by (simp add: deactivations_def broadcast_def sendErrors_def filter_map comp_def)

lemma deactivations_foldl_broadcastFrame:
  "deactivations c k (foldl (\<lambda>s' frame. broadcastFrame c' k' frame s') s frames)
     = deactivations c k s"
  by (induction frames arbitrary: s) (simp_all add: broadcastFrame_def deactivations_broadcast)

lemma deactivations_feedChunk:
  "deactivations c k (feedChunk c' k' chunk s) = deactivations c k s"
  by (simp add: feedChunk_def Let_def deactivations_foldl_broadcastFrame
      split: option.splits prod.splits)

lemma deactivations_registerStream:
  "deactivations c k (registerStream c' k' s) = deactivations c k s"
  by (simp add: registerStream_def Let_def deactivations_def broadcastStreamUpdate_def
      broadcast_def sendErrors_def filter_map comp_def)

lemma deactivations_unregisterStream:
  "deactivations c k (unregisterStream c' k' s)
     = deactivations c k s + (if c' = c \<and> k' = k then 1 else 0)"
  by (simp add: unregisterStream_def Let_def deactivations_def broadcastStreamUpdate_def
      broadcast_def sendErrors_def filter_map comp_def)

lemma deactivations_onReqEvent:
  "deactivations c k (onReqEvent k c ev s)
     = deactivations c k s + (if terminal ev then 1 else 0)"
  by (cases ev)
    (simp_all add: onReqEvent_def terminal_def deactivations_feedChunk
      deactivations_unregisterStream deactivations_append)

lemma dispatch_installed:
  "handlers (fst xs) = Some (k, c) \<Longrightarrow> dispatch xs ev = (fst xs, onReqEvent k c ev (snd xs))"
  by (simp add: dispatch_def)

lemma deactivations_foldl_dispatch:
  "handlers (fst xs) = Some (k, c) \<Longrightarrow>
   deactivations c k (snd (foldl dispatch xs evs))
     = deactivations c k (snd xs) + length (filter terminal evs)"
proof (induction evs rule: rev_induct)
  case Nil
  then show ?case by simp
next
  case (snoc ev evs)
  have h: "handlers (fst (foldl dispatch xs evs)) = Some (k, c)"
    using snoc.prems by (simp add: fst_foldl_dispatch)
  show ?case
    using snoc by (simp add: dispatch_installed [OF h] deactivations_onReqEvent)
qed

lemma deactivations_postStream:
  "deactivations c k (snd (postStream k' q s)) = deactivations c k s"
  by (simp add: postStream_def Let_def deactivations_registerStream deactivations_append
      split: option.splits)

text \<open>
  C5, amended. On a producer connection that was accepted, \<open>unregisterStream\<close> runs once
  for every \<open>'end'\<close> and once for every \<open>'error'\<close> event of the request, and for no
  other event. So it runs exactly once when exactly one of these events is delivered,
  whatever \<open>'data'\<close> and \<open>'close'\<close> events come with it.
\<close>

theorem deactivation_per_end_or_error:
  assumes "clientId \<noteq> []"
  shows "deactivations clientId k (snd (producerRun k (Some clientId) evs s))
           = deactivations clientId k s + length (filter terminal evs)"
proof -
  have h: "handlers (fst (postStream k (Some clientId) s)) = Some (k, clientId)"
    using assms by (simp add: postStream_def)
  show ?thesis
    unfolding producerRun_def deactivations_foldl_dispatch [OF h] deactivations_postStream ..
qed

theorem deactivation_per_end_or_error_witness:
  "''a'' \<noteq> []
   \<and> deactivations ''a'' Screen (snd (producerRun Screen (Some ''a'') [Data [7], Error, Close] initialServer)) = 1"
proof -
  have h: "''a'' \<noteq> []" by simp
  have n: "deactivations ''a'' Screen initialServer = 0"
    by (simp add: deactivations_def initialServer_def)
  show ?thesis
    using h n deactivation_per_end_or_error [OF h, of Screen "[Data [7], Error, Close]" initialServer]
    by (simp add: terminal_def)
qed

text \<open>
  C5, as the specification states it, fails: a request that only closes runs no
  deactivation, and one that emits \<open>'error'\<close> and then \<open>'end'\<close> runs two.
\<close>

theorem exactly_once_counterexample:
  "deactivations ''a'' Screen (snd (producerRun Screen (Some ''a'') [Data [7], Close] initialServer)) = 0
   \<and> deactivations ''a'' Screen (snd (producerRun Screen (Some ''a'') [Error, End] initialServer)) = 2"
proof -
  have h: "handlers (fst (postStream Screen (Some ''a'') initialServer)) = Some (Screen, ''a'')"
    by (simp add: postStream_def)
  have n: "deactivations ''a'' Screen initialServer = 0"
    by (simp add: deactivations_def initialServer_def)
  show ?thesis
    unfolding producerRun_def deactivations_foldl_dispatch [OF h] deactivations_postStream n
    by (simp add: terminal_def)
qed


section \<open>Decode buffers\<close>

lemma streamBuffers_unregisterStream:
  "streamBuffers (unregisterStream c k s) = (streamBuffers s)(bufferKey c k := None)"
  by (simp add: unregisterStream_def broadcastStreamUpdate_def Let_def)

text \<open>
  C10. When \<open>streamBuffers\<close> has no entry under the key of a client and kind,
  \<open>feedChunk\<close> returns the state as it was: nothing is sent to a viewer, and both Maps
  and the viewer set are unchanged. There is no entry when nothing was ever registered,
  and none after \<open>unregisterStream\<close> for that client and kind.
\<close>

theorem feedChunk_without_entry:
  "(streamBuffers s (bufferKey c k) = None \<longrightarrow> feedChunk c k chunk s = s)
   \<and> feedChunk c k chunk initialServer = initialServer
   \<and> feedChunk c k chunk (unregisterStream c k s) = unregisterStream c k s"
  by (simp add: feedChunk_def initialServer_def streamBuffers_unregisterStream)

theorem feedChunk_without_entry_witness:
  "streamBuffers initialServer (bufferKey ''a'' Screen) = None
   \<and> feedChunk ''a'' Screen [0, 0, 0, 1, 65] initialServer = initialServer"
proof -
  have h: "streamBuffers initialServer (bufferKey ''a'' Screen) = None"
    by (simp add: initialServer_def)
  show ?thesis
    using h feedChunk_without_entry [of initialServer "''a''" Screen "[0, 0, 0, 1, 65]"]
    by blast
qed

lemma bufferKey_eq_iff: "bufferKey c k = bufferKey c' k' \<longleftrightarrow> c = c' \<and> k = k'"
proof -
  have l: "length ('':'' @ kindName k) = length ('':'' @ kindName k')"
    by (cases k; cases k') simp_all
  have "c @ ('':'' @ kindName k) = c' @ ('':'' @ kindName k') \<longleftrightarrow> c = c' \<and> kindName k = kindName k'"
    using append_eq_append_conv [OF disjI2 [OF l], of c c'] by simp
  moreover have "kindName k = kindName k' \<longleftrightarrow> k = k'"
    by (cases k; cases k') simp_all
  ultimately show ?thesis by (simp add: bufferKey_def)
qed

lemma streamBuffers_foldl_broadcastFrame:
  "streamBuffers (foldl (\<lambda>s' frame. broadcastFrame c k frame s') s frames) = streamBuffers s"
  by (induction frames arbitrary: s) (simp_all add: broadcastFrame_def)

text \<open>
  Connections whose client or kind differ have different keys, and \<open>feedChunk\<close> for one
  leaves the decode state of the other alone.
\<close>

lemma feedChunk_other_connection:
  assumes "(c, k) \<noteq> (c', k')"
  shows "streamBuffers (feedChunk c k chunk s) (bufferKey c' k') = streamBuffers s (bufferKey c' k')"
  using assms
  by (auto simp: feedChunk_def Let_def streamBuffers_foldl_broadcastFrame bufferKey_eq_iff
      split: option.splits prod.splits)

text \<open>
  C9 at two connections with the same \<open>clientId\<close> and kind. Both requests are accepted and
  both install handlers for the key \<open>a:screen\<close>. The first connection sends a prefix for
  two bytes and one byte of payload; the second connection sends one byte, which completes
  the first connection's frame: there is one decode state for the two.
\<close>

theorem same_clientId_shares_decode_state:
  "(let (x1, s1) = postStream Screen (Some ''a'') initialServer;
        (x2, s2) = postStream Screen (Some ''a'') s1;
        (y1, s3) = dispatch (x1, s2) (Data [0, 0, 0, 2, 65]);
        (y2, s4) = dispatch (x2, s3) (Data [66])
    in (streamBuffers s3 (bufferKey ''a'' Screen), streamBuffers s4 (bufferKey ''a'' Screen)))
   = (Some \<lparr>buf = [65], need = 2, payloadLen = 2\<rparr>, Some \<lparr>buf = [], need = 4, payloadLen = 0\<rparr>)"
  by (simp add: postStream_def dispatch_def onReqEvent_def registerStream_def feedChunk_def
      Let_def broadcastStreamUpdate_def broadcastFrame_def broadcast_def sendErrors_def
      initialServer_def feedState_def freshState_def drain.simps readLength_def
      readUInt32BE_def maxFrameLen_def bufferKey_def)


section \<open>Fan-out to viewers\<close>

lemma viewingClients_broadcast:
  "viewingClients (broadcast l m s) = map (deliver m) (viewingClients s)"
  by (simp add: broadcast_def)

lemma vid_deliver [simp]: "vid (deliver m v) = vid v"
  by (simp add: deliver_def)

text \<open>
  C6, as the specification states it, fails: the viewer whose \<open>send\<close> raises is still in
  \<open>viewingClients\<close> after the publish.
\<close>

theorem failed_viewer_removed_counterexample:
  "map vid (viewingClients (broadcastFrame ''a'' Screen [65] twoViewers)) = [1, 2]
   \<and> map vid (viewingClients (broadcastStreamUpdate twoViewers)) = [1, 2]"
  by (simp add: broadcastFrame_def broadcastStreamUpdate_def viewingClients_broadcast
      twoViewers_def)

lemma sendErrors_replicate:
  "sendErrors l vs
     = replicate (length (filter (\<lambda>v. readyState v = OPEN \<and> sendThrows v) vs)) l"
  by (simp add: sendErrors_def map_replicate_const)

lemma console_broadcast:
  "console (broadcast l m s)
     = console s @ replicate (length (filter (\<lambda>v. readyState v = OPEN \<and> sendThrows v)
                                         (viewingClients s))) l"
  by (simp add: broadcast_def sendErrors_replicate)

lemma vids_broadcast: "map vid (viewingClients (broadcast l m s)) = map vid (viewingClients s)"
  by (simp add: viewingClients_broadcast comp_def)

lemma vids_registerStream:
  "map vid (viewingClients (registerStream c k s)) = map vid (viewingClients s)"
  by (simp add: registerStream_def Let_def broadcastStreamUpdate_def vids_broadcast)

lemma vids_unregisterStream:
  "map vid (viewingClients (unregisterStream c k s)) = map vid (viewingClients s)"
  by (simp add: unregisterStream_def Let_def broadcastStreamUpdate_def vids_broadcast)

lemma vids_foldl_broadcastFrame:
  "map vid (viewingClients (foldl (\<lambda>s' frame. broadcastFrame c k frame s') s frames))
     = map vid (viewingClients s)"
  by (induction frames arbitrary: s) (simp_all add: broadcastFrame_def vids_broadcast)

lemma vids_feedChunk:
  "map vid (viewingClients (feedChunk c k chunk s)) = map vid (viewingClients s)"
  by (simp add: feedChunk_def Let_def vids_foldl_broadcastFrame split: option.splits prod.splits)

lemma vids_postStream:
  "map vid (viewingClients (snd (postStream k q s))) = map vid (viewingClients s)"
  by (simp add: postStream_def Let_def vids_registerStream split: option.splits)

lemma vids_onReqEvent:
  "map vid (viewingClients (onReqEvent k c ev s)) = map vid (viewingClients s)"
  by (cases ev) (simp_all add: onReqEvent_def vids_feedChunk vids_unregisterStream)

lemma vids_dispatch:
  "map vid (viewingClients (snd (dispatch xs ev))) = map vid (viewingClients (snd xs))"
  by (simp add: dispatch_def vids_onReqEvent split: option.splits prod.splits)

lemma vids_viewerClose:
  "map vid (viewingClients (viewerClose w s)) = filter (\<lambda>x. x \<noteq> w) (map vid (viewingClients s))"
  by (simp add: viewerClose_def Let_def filter_map comp_def)

text \<open>
  C6, amended. A publish of a frame or of a presence message keeps every viewer in
  \<open>viewingClients\<close>, in order, and touches neither \<open>activeStreams\<close> nor
  \<open>streamBuffers\<close>. A viewer that is open and whose \<open>send\<close> succeeds receives the
  message, whatever happens on the other viewers. A viewer that is not open, or whose
  \<open>send\<close> raises, is left as it was; the publish raises nothing, and writes one error line
  to the console for each open viewer whose \<open>send\<close> raised, and nothing else. No
  producer operation (\<open>registerStream\<close>, \<open>unregisterStream\<close>, \<open>feedChunk\<close>, the POST
  handler, an event of a request) removes or adds a viewer; the close handler of a viewer
  removes the viewer it belongs to and no other.
\<close>

theorem failed_delivery_isolated:
  assumes "i < length (viewingClients s)"
    and "v = viewingClients s ! i"
    and "v' = viewingClients (broadcastFrame c k f s) ! i"
    and "v'' = viewingClients (broadcastStreamUpdate s) ! i"
  shows "map vid (viewingClients (broadcastFrame c k f s)) = map vid (viewingClients s)
       \<and> map vid (viewingClients (broadcastStreamUpdate s)) = map vid (viewingClients s)
       \<and> (readyState v = OPEN \<and> \<not> sendThrows v \<longrightarrow>
            v' = v\<lparr>inbox := inbox v @ [FrameMsg c k f]\<rparr>
            \<and> v'' = v\<lparr>inbox := inbox v @ [StreamsMsg (streamList s)]\<rparr>)
       \<and> (readyState v \<noteq> OPEN \<or> sendThrows v \<longrightarrow> v' = v \<and> v'' = v)
       \<and> console (broadcastFrame c k f s)
           = console s @ replicate (length (filter (\<lambda>u. readyState u = OPEN \<and> sendThrows u)
                                               (viewingClients s))) LogFrameSendError
       \<and> console (broadcastStreamUpdate s)
           = console s @ replicate (length (filter (\<lambda>u. readyState u = OPEN \<and> sendThrows u)
                                               (viewingClients s))) LogUpdateSendError
       \<and> (readyState v = OPEN \<and> sendThrows v \<longrightarrow>
            LogFrameSendError \<in> set (drop (length (console s)) (console (broadcastFrame c k f s)))
            \<and> LogUpdateSendError \<in> set (drop (length (console s)) (console (broadcastStreamUpdate s))))
       \<and> activeStreams (broadcastFrame c k f s) = activeStreams s
       \<and> streamBuffers (broadcastFrame c k f s) = streamBuffers s
       \<and> activeStreams (broadcastStreamUpdate s) = activeStreams s
       \<and> streamBuffers (broadcastStreamUpdate s) = streamBuffers s
       \<and> map vid (viewingClients (registerStream c k s)) = map vid (viewingClients s)
       \<and> map vid (viewingClients (unregisterStream c k s)) = map vid (viewingClients s)
       \<and> map vid (viewingClients (feedChunk c k chunk s)) = map vid (viewingClients s)
       \<and> map vid (viewingClients (snd (postStream k q s))) = map vid (viewingClients s)
       \<and> map vid (viewingClients (snd (dispatch (x, s) ev))) = map vid (viewingClients s)
       \<and> map vid (viewingClients (viewerClose w s))
           = filter (\<lambda>x. x \<noteq> w) (map vid (viewingClients s))"
proof -
  have ids: "map vid (viewingClients (broadcastFrame c k f s)) = map vid (viewingClients s)"
      "map vid (viewingClients (broadcastStreamUpdate s)) = map vid (viewingClients s)"
    by (simp_all add: broadcastFrame_def broadcastStreamUpdate_def vids_broadcast)
  have each: "v' = deliver (FrameMsg c k f) v" "v'' = deliver (StreamsMsg (streamList s)) v"
    using assms
    by (simp_all add: broadcastFrame_def broadcastStreamUpdate_def viewingClients_broadcast)
  have ok: "readyState v = OPEN \<and> \<not> sendThrows v \<longrightarrow>
            v' = v\<lparr>inbox := inbox v @ [FrameMsg c k f]\<rparr>
            \<and> v'' = v\<lparr>inbox := inbox v @ [StreamsMsg (streamList s)]\<rparr>"
    by (simp add: each deliver_def)
  have bad: "readyState v \<noteq> OPEN \<or> sendThrows v \<longrightarrow> v' = v \<and> v'' = v"
    by (auto simp: each deliver_def)
  have log: "console (broadcastFrame c k f s)
           = console s @ replicate (length (filter (\<lambda>u. readyState u = OPEN \<and> sendThrows u)
                                               (viewingClients s))) LogFrameSendError"
      "console (broadcastStreamUpdate s)
           = console s @ replicate (length (filter (\<lambda>u. readyState u = OPEN \<and> sendThrows u)
                                               (viewingClients s))) LogUpdateSendError"
    by (simp_all add: broadcastFrame_def broadcastStreamUpdate_def console_broadcast)
  have logged: "readyState v = OPEN \<and> sendThrows v \<longrightarrow>
            LogFrameSendError \<in> set (drop (length (console s)) (console (broadcastFrame c k f s)))
            \<and> LogUpdateSendError \<in> set (drop (length (console s)) (console (broadcastStreamUpdate s)))"
  proof
    assume a: "readyState v = OPEN \<and> sendThrows v"
    have "v \<in> set (viewingClients s)" using assms(1,2) by simp
    then have "filter (\<lambda>u. readyState u = OPEN \<and> sendThrows u) (viewingClients s) \<noteq> []"
      using a by (auto simp: filter_empty_conv)
    then show "LogFrameSendError \<in> set (drop (length (console s)) (console (broadcastFrame c k f s)))
            \<and> LogUpdateSendError \<in> set (drop (length (console s)) (console (broadcastStreamUpdate s)))"
      by (simp add: log)
  qed
  have maps: "activeStreams (broadcastFrame c k f s) = activeStreams s"
      "streamBuffers (broadcastFrame c k f s) = streamBuffers s"
      "activeStreams (broadcastStreamUpdate s) = activeStreams s"
      "streamBuffers (broadcastStreamUpdate s) = streamBuffers s"
    by (simp_all add: broadcastFrame_def broadcastStreamUpdate_def)
  have d: "map vid (viewingClients (snd (dispatch (x, s) ev))) = map vid (viewingClients s)"
    using vids_dispatch [of "(x, s)" ev] by simp
  show ?thesis
    using ids ok bad log logged maps d vids_registerStream [of c k s]
      vids_unregisterStream [of c k s] vids_feedChunk [of c k chunk s]
      vids_postStream [of k q s] vids_viewerClose [of w s]
    by blast
qed

theorem failed_delivery_isolated_witness:
  "(1::nat) < length (viewingClients twoViewers)
   \<and> readyState (viewingClients twoViewers ! 1) = OPEN
   \<and> \<not> sendThrows (viewingClients twoViewers ! 1)
   \<and> readyState (viewingClients twoViewers ! 0) = OPEN
   \<and> sendThrows (viewingClients twoViewers ! 0)
   \<and> map vid (viewingClients (broadcastFrame ''a'' Screen [65] twoViewers))
       = map vid (viewingClients twoViewers)
   \<and> viewingClients (broadcastFrame ''a'' Screen [65] twoViewers) ! 1
       = (viewingClients twoViewers ! 1)
           \<lparr>inbox := inbox (viewingClients twoViewers ! 1) @ [FrameMsg ''a'' Screen [65]]\<rparr>
   \<and> viewingClients (broadcastFrame ''a'' Screen [65] twoViewers) ! 0
       = viewingClients twoViewers ! 0
   \<and> LogFrameSendError
       \<in> set (drop (length (console twoViewers))
                (console (broadcastFrame ''a'' Screen [65] twoViewers)))
   \<and> map vid (viewingClients (viewerClose 1 twoViewers))
       = filter (\<lambda>x. x \<noteq> 1) (map vid (viewingClients twoViewers))"
proof -
  have h: "(1::nat) < length (viewingClients twoViewers)"
    and h0: "(0::nat) < length (viewingClients twoViewers)"
    by (simp_all add: twoViewers_def)
  have o: "readyState (viewingClients twoViewers ! 1) = OPEN"
      "\<not> sendThrows (viewingClients twoViewers ! 1)"
      "readyState (viewingClients twoViewers ! 0) = OPEN"
      "sendThrows (viewingClients twoViewers ! 0)"
    by (simp_all add: twoViewers_def)
  show ?thesis
    using h o
      failed_delivery_isolated [OF h refl refl refl, of "''a''" Screen "[65]" "[]" None
        "\<lparr>handlers = None, sent = []\<rparr>" Close 1]
      failed_delivery_isolated [OF h0 refl refl refl, of "''a''" Screen "[65]" "[]" None
        "\<lparr>handlers = None, sent = []\<rparr>" Close 1]
    by blast
qed

end
